theory Spec2Isabelle
  imports Complex_Main
begin

section \<open>Text helpers of the Python runtime\<close>

text \<open>
  Decoded text is a \<^typ>\<open>string\<close>; a character stands for one code point below 256.
  The functions below are the \<^verbatim>\<open>str\<close> methods the scripts call.
\<close>

definition isspace :: "char \<Rightarrow> bool" where
  \<comment> \<open>\<^verbatim>\<open>str.isspace\<close> on the code points below 256: TAB..CR, FS..US, SPACE, NEL, NBSP.\<close>
  "isspace c = ((of_char c :: nat) \<in> {9, 10, 11, 12, 13, 28, 29, 30, 31, 32, 133, 160})"

definition strip :: "string \<Rightarrow> string" where
  \<comment> \<open>\<^verbatim>\<open>line.strip()\<close>: leading and trailing whitespace removed.\<close>
  "strip s = rev (dropWhile isspace (rev (dropWhile isspace s)))"

definition startswith :: "string \<Rightarrow> string \<Rightarrow> bool" where
  \<comment> \<open>\<^verbatim>\<open>line.startswith(p)\<close>, written \<open>startswith line p\<close>.\<close>
  "startswith line p = (take (length p) line = p)"

definition count_char :: "string \<Rightarrow> char \<Rightarrow> nat" where
  \<comment> \<open>\<^verbatim>\<open>line.count(c)\<close> for a one-character argument.\<close>
  "count_char line c = length (filter (\<lambda>x. x = c) line)"

fun split_on :: "char \<Rightarrow> string \<Rightarrow> string list" where
  \<comment> \<open>\<^verbatim>\<open>line.split(c)\<close> for a one-character separator: never empty, keeps empty fields.\<close>
  "split_on c [] = [[]]"
| "split_on c (x # xs) =
     (if x = c then [] # split_on c xs
      else (case split_on c xs of [] \<Rightarrow> [[x]] | f # fs \<Rightarrow> (x # f) # fs))"

section \<open>The logger: \<^verbatim>\<open>firmware/glove_logger.py\<close>\<close>

definition HEADER :: string where
  "HEADER = ''t_s,flex1,flex2,flex3,flex4,flex5,roll_deg,pitch_deg,ax_g,ay_g,az_g,label,trial_id''"

definition ROWS_PER_TRIAL :: nat where
  "ROWS_PER_TRIAL = 75"

type_synonym row = "string list"

text \<open>
  What the reader prints: the echo of a line, the acknowledgment of a saved trial (the
  trial id and the row count shown in it) and the report of an exception.
\<close>

datatype printout = Echo string | Saved string nat | ReaderError

text \<open>
  The state of \<^verbatim>\<open>serial_reader\<close>: its two locals, the rows handed to
  \<^verbatim>\<open>writer.writerow\<close> so far (oldest first) and the lines printed so far. The writer
  is an append-only destination that accepts every row.
\<close>

record reader =
  current_rows :: "row list"
  trial_id_active :: "string option"
  written :: "row list"
  printed :: "printout list"

text \<open>One result of \<^verbatim>\<open>ser.readline().decode(...)\<close>: the decoded text, or an exception.\<close>

datatype reading = Line string | Raised

definition shown_id :: "string option \<Rightarrow> string" where
  \<comment> \<open>How an f-string shows \<^verbatim>\<open>trial_id_active\<close>.\<close>
  "shown_id t = (case t of None \<Rightarrow> ''None'' | Some a \<Rightarrow> a)"

definition on_line :: "string \<Rightarrow> reader \<Rightarrow> reader" where
  \<comment> \<open>The body of the \<^verbatim>\<open>try\<close> block for one decoded line (lines 38 to 73).\<close>
  "on_line raw s =
     (let line = strip raw in
      if line = [] then s
      else if startswith line ''t_s,'' then s
      else
        let s1 = s\<lparr>printed := printed s @ [Echo line]\<rparr> in
        if count_char line CHR '','' = 12 \<and> \<not> startswith line ''#'' then
          let parts = split_on CHR '','' line;
              tid = last parts;
              s2 = (if trial_id_active s1 = None
                    then s1\<lparr>trial_id_active := Some tid\<rparr> else s1);
              s3 = (if Some tid \<noteq> trial_id_active s2
                    then s2\<lparr>written := written s2 @ current_rows s2,
                            printed := printed s2 @
                              [Saved (shown_id (trial_id_active s2)) (length (current_rows s2))],
                            current_rows := [],
                            trial_id_active := Some tid\<rparr>
                    else s2);
              s4 = s3\<lparr>current_rows := current_rows s3 @ [parts]\<rparr>
          in if length (current_rows s4) = ROWS_PER_TRIAL
             then s4\<lparr>written := written s4 @ current_rows s4,
                     printed := printed s4 @ [Saved (shown_id (trial_id_active s4)) 75],
                     current_rows := []\<rparr>
             else s4
        else s1)"

fun reader_loop :: "reading list \<Rightarrow> reader \<Rightarrow> reader" where
  \<comment> \<open>The \<^verbatim>\<open>while running\<close> loop over the readings made while \<^verbatim>\<open>running\<close> holds;
      an exception is reported and ends the loop.\<close>
  "reader_loop [] s = s"
| "reader_loop (Line raw # rs) s = reader_loop rs (on_line raw s)"
| "reader_loop (Raised # rs) s = s\<lparr>printed := printed s @ [ReaderError]\<rparr>"

definition serial_reader :: "reading list \<Rightarrow> row list \<Rightarrow> reader" where
  \<comment> \<open>\<^verbatim>\<open>serial_reader(ser, writer)\<close>: \<open>ser\<close> as the readings it yields, \<open>writer\<close> as
      the rows already written to it.\<close>
  "serial_reader ser writer =
     reader_loop ser \<lparr>current_rows = [], trial_id_active = None, written = writer, printed = []\<rparr>"

definition header_row :: row where
  \<comment> \<open>\<^verbatim>\<open>HEADER.split(",")\<close>.\<close>
  "header_row = split_on CHR '','' HEADER"

definition main_store :: "reading list \<Rightarrow> row list" where
  \<comment> \<open>The rows of the file when \<^verbatim>\<open>main\<close> leaves its \<^verbatim>\<open>with\<close> block: the header
      row, then whatever the reader wrote.\<close>
  "main_store ser = written (serial_reader ser [header_row])"

subsection \<open>Vocabulary for the properties of the logger\<close>

definition data_line :: "string \<Rightarrow> bool" where
  \<comment> \<open>The conditions under which lines 50 to 73 run for a decoded line.\<close>
  "data_line raw =
     (let line = strip raw in
      line \<noteq> [] \<and> \<not> startswith line ''t_s,'' \<and>
      count_char line CHR '','' = 12 \<and> \<not> startswith line ''#'')"

definition row_of :: "string \<Rightarrow> row" where
  \<comment> \<open>\<^verbatim>\<open>parts\<close> of a decoded line.\<close>
  "row_of raw = split_on CHR '','' (strip raw)"

definition tid_of :: "string \<Rightarrow> string" where
  \<comment> \<open>\<^verbatim>\<open>tid = parts[-1]\<close> of a decoded line.\<close>
  "tid_of raw = last (row_of raw)"

fun is_saved :: "printout \<Rightarrow> bool" where
  "is_saved (Saved t n) = True"
| "is_saved p = False"

definition acknowledgments :: "reader \<Rightarrow> printout list" where
  \<comment> \<open>The trial-completion acknowledgments printed so far, oldest first.\<close>
  "acknowledgments s = filter is_saved (printed s)"

fun saved_rows :: "printout \<Rightarrow> nat" where
  \<comment> \<open>The row count an acknowledgment reports.\<close>
  "saved_rows (Saved t n) = n"
| "saved_rows p = 0"

fun accepted_rows :: "reading list \<Rightarrow> row list" where
  \<comment> \<open>The rows appended to \<^verbatim>\<open>current_rows\<close> during a run, in arrival order.\<close>
  "accepted_rows [] = []"
| "accepted_rows (Line raw # rs) =
     (if data_line raw then row_of raw # accepted_rows rs else accepted_rows rs)"
| "accepted_rows (Raised # rs) = []"

fun trial_ids :: "reading list \<Rightarrow> string list" where
  \<comment> \<open>The trial ids of the rows appended to \<^verbatim>\<open>current_rows\<close> during a run, in arrival order.\<close>
  "trial_ids [] = []"
| "trial_ids (Line raw # rs) =
     (if data_line raw then tid_of raw # trial_ids rs else trial_ids rs)"
| "trial_ids (Raised # rs) = []"

definition trailing_run :: "string list \<Rightarrow> nat" where
  \<comment> \<open>How many ids at the end of the list are equal to its last one.\<close>
  "trailing_run ids =
     (case rev ids of [] \<Rightarrow> 0 | t # ts \<Rightarrow> Suc (length (takeWhile (\<lambda>u. u = t) ts)))"

definition last_trial_rows :: "reading list \<Rightarrow> nat" where
  \<comment> \<open>The number of data rows the input ends with that carry one trial id: the rows that
      arrived after the last change of the trial id.\<close>
  "last_trial_rows ser = trailing_run (trial_ids ser)"

definition unflushed :: "reading list \<Rightarrow> nat" where
  \<comment> \<open>The rows of the last trial of the input beyond its complete blocks of
      \<open>ROWS_PER_TRIAL\<close> rows.\<close>
  "unflushed ser = last_trial_rows ser mod ROWS_PER_TRIAL"

fun join_on :: "char \<Rightarrow> string list \<Rightarrow> string" where
  \<comment> \<open>\<^verbatim>\<open>c.join(fields)\<close>.\<close>
  "join_on c [] = []"
| "join_on c [f] = f"
| "join_on c (f # g # fs) = f @ c # join_on c (g # fs)"

section \<open>Calibration: \<^verbatim>\<open>calibration_capture.py\<close> and \<^verbatim>\<open>tools/python_calibration.py\<close>\<close>

text \<open>
  \<^verbatim>\<open>float(x)\<close> is a parameter \<open>pf\<close> of the model: \<open>None\<close> stands for its
  \<^verbatim>\<open>ValueError\<close>. The sensor values are of any type \<open>'a\<close>. NumPy is not part of the
  repository and computes in 64-bit floating point: its three reductions along the first
  axis of a rectangular array, each followed by \<^verbatim>\<open>tolist()\<close>, are parameters of the
  model too, so nothing is assumed about their arithmetic. What the model keeps of NumPy is
  that it raises where the rows cannot form such an array.
\<close>

datatype calib_error = ConnectFailed | NoSensorData | NumpyValueError

record 'a numpy =
  np_mean :: "'a list list \<Rightarrow> 'a list"
  np_max :: "'a list list \<Rightarrow> 'a list"
  np_min :: "'a list list \<Rightarrow> 'a list"

definition parse_values :: "(string \<Rightarrow> 'a option) \<Rightarrow> string \<Rightarrow> 'a list option" where
  \<comment> \<open>\<^verbatim>\<open>[float(x) for x in line.split(',')]\<close>; \<open>None\<close> when one field raises.\<close>
  "parse_values pf line = those (map pf (split_on CHR '','' line))"

subsection \<open>\<^verbatim>\<open>GloveCalibrationCapture\<close>\<close>

definition collect_line :: "(string \<Rightarrow> 'a option) \<Rightarrow> string \<Rightarrow> 'a list list \<Rightarrow> 'a list list" where
  \<comment> \<open>Lines 114 to 128 for one non-empty \<^verbatim>\<open>raw\<close>, on \<^verbatim>\<open>self.calibration_data\<close>.\<close>
  "collect_line pf raw calibration_data =
     (let line = strip raw in
      if startswith line ''#'' \<or> line = [] then calibration_data
      else case parse_values pf line of
             None \<Rightarrow> calibration_data
           | Some values \<Rightarrow>
               if length values \<ge> 5
               then calibration_data @ [take 5 (drop 1 values)]
               else calibration_data)"

fun collect_loop :: "(string \<Rightarrow> 'a option) \<Rightarrow> reading list \<Rightarrow> 'a list list \<Rightarrow> 'a list list" where
  \<comment> \<open>The timed \<^verbatim>\<open>while\<close> loop over the readings made within \<^verbatim>\<open>duration\<close>; an
      empty \<^verbatim>\<open>raw\<close> is the reading \<open>Line []\<close>; an exception ends the loop.\<close>
  "collect_loop pf [] calibration_data = calibration_data"
| "collect_loop pf (Line raw # rs) calibration_data =
     collect_loop pf rs (collect_line pf raw calibration_data)"
| "collect_loop pf (Raised # rs) calibration_data = calibration_data"

definition collect_calibration_data ::
  "(string \<Rightarrow> 'a option) \<Rightarrow> reading list \<Rightarrow> calib_error + 'a list list" where
  "collect_calibration_data pf ser =
     (let calibration_data = collect_loop pf ser [] in
      if calibration_data = [] then Inl NoSensorData else Inr calibration_data)"

record 'a calibration_values =
  sensorBaselines :: "'a list"
  sensorMaximums :: "'a list"
  sensorMinimums :: "'a list"
  calibrationTimestamp :: int

fun calculate_calibration_values ::
  "'a numpy \<Rightarrow> int \<Rightarrow> 'a list list \<Rightarrow> calib_error + 'a calibration_values" where
  \<comment> \<open>\<open>now\<close> is \<^verbatim>\<open>int(time.time() * 1000)\<close>. Rows of different lengths make
      \<^verbatim>\<open>np.array(data)\<close> raise, and no rows make \<^verbatim>\<open>np.max\<close> raise.\<close>
  "calculate_calibration_values np now [] = Inl NumpyValueError"
| "calculate_calibration_values np now (r # rs) =
     (if list_all (\<lambda>x. length x = length r) rs
      then Inr \<lparr>sensorBaselines = np_mean np (r # rs),
                sensorMaximums = np_max np (r # rs),
                sensorMinimums = np_min np (r # rs),
                calibrationTimestamp = now\<rparr>
      else Inl NumpyValueError)"

record 'a calibrationData =
  cd_sensorBaselines :: "'a list"
  cd_sensorMaximums :: "'a list"
  cd_calibrationTimestamp :: int

record 'a calibration_record =
  username :: string
  isCalibrated :: bool
  calibrationData :: "'a calibrationData"

definition run_full_calibration ::
  "'a numpy \<Rightarrow> (string \<Rightarrow> 'a option) \<Rightarrow> string \<Rightarrow> bool \<Rightarrow> reading list \<Rightarrow> reading list \<Rightarrow>
   int \<Rightarrow> int \<Rightarrow> int \<Rightarrow> calib_error + 'a calibration_record" where
  \<comment> \<open>\<open>connect_ok\<close> is the result of \<^verbatim>\<open>self.connect()\<close>; \<open>rest\<close> and \<open>flex\<close> are the
      readings of the two phases; \<open>t1\<close>, \<open>t2\<close>, \<open>t3\<close> the three clock readings.\<close>
  "run_full_calibration np pf user connect_ok rest flex t1 t2 t3 =
     (if \<not> connect_ok then Inl ConnectFailed
      else case collect_calibration_data pf rest of
        Inl e \<Rightarrow> Inl e
      | Inr rest_data \<Rightarrow>
      (case calculate_calibration_values np t1 rest_data of
        Inl e \<Rightarrow> Inl e
      | Inr rest_calibration \<Rightarrow>
      (case collect_calibration_data pf flex of
        Inl e \<Rightarrow> Inl e
      | Inr flex_data \<Rightarrow>
      (case calculate_calibration_values np t2 flex_data of
        Inl e \<Rightarrow> Inl e
      | Inr flex_calibration \<Rightarrow>
          Inr \<lparr>username = user, isCalibrated = True,
                calibrationData =
                  \<lparr>cd_sensorBaselines = sensorBaselines rest_calibration,
                   cd_sensorMaximums = sensorMaximums flex_calibration,
                   cd_calibrationTimestamp = t3\<rparr>\<rparr>))))"

subsection \<open>\<^verbatim>\<open>GloveCalibrator\<close>\<close>

definition read_sensor_data :: "(string \<Rightarrow> 'a option) \<Rightarrow> reading \<Rightarrow> 'a list option" where
  \<comment> \<open>On an open connection; every exception is caught and gives \<^verbatim>\<open>None\<close>.\<close>
  "read_sensor_data pf r =
     (case r of
        Raised \<Rightarrow> None
      | Line raw \<Rightarrow>
          (let line = strip raw in
           if line \<noteq> [] then
             (case parse_values pf line of
                None \<Rightarrow> None
              | Some values \<Rightarrow> if length values \<ge> 5 then Some (take 5 values) else None)
           else None))"

definition calibrator_samples :: "(string \<Rightarrow> 'a option) \<Rightarrow> reading list \<Rightarrow> 'a list list" where
  \<comment> \<open>\<^verbatim>\<open>samples\<close> at the end of the loop of \<^verbatim>\<open>GloveCalibrator.collect_calibration_data\<close>.\<close>
  "calibrator_samples pf ser = List.map_filter (read_sensor_data pf) ser"

definition calibrator_collect_calibration_data ::
  "'a numpy \<Rightarrow> (string \<Rightarrow> 'a option) \<Rightarrow> reading list \<Rightarrow> calib_error + 'a list" where
  \<comment> \<open>The samples are all 5 values wide, so \<^verbatim>\<open>np.mean(samples, axis=0)\<close> gets a
      rectangular array.\<close>
  "calibrator_collect_calibration_data np pf ser =
     (case calibrator_samples pf ser of
        [] \<Rightarrow> Inl NoSensorData
      | r # rs \<Rightarrow> Inr (np_mean np (r # rs)))"

definition calibrator_run_full_calibration ::
  "'a numpy \<Rightarrow> (string \<Rightarrow> 'a option) \<Rightarrow> string \<Rightarrow> bool \<Rightarrow> reading list \<Rightarrow> reading list \<Rightarrow>
   int \<Rightarrow> calib_error + 'a calibration_record" where
  "calibrator_run_full_calibration np pf user connect_ok rest flex t =
     (if \<not> connect_ok then Inl ConnectFailed
      else case calibrator_collect_calibration_data np pf rest of
        Inl e \<Rightarrow> Inl e
      | Inr baseline_values \<Rightarrow>
      (case calibrator_collect_calibration_data np pf flex of
        Inl e \<Rightarrow> Inl e
      | Inr maximum_values \<Rightarrow>
          Inr \<lparr>username = user, isCalibrated = True,
                calibrationData =
                  \<lparr>cd_sensorBaselines = baseline_values,
                   cd_sensorMaximums = maximum_values,
                   cd_calibrationTimestamp = t\<rparr>\<rparr>))"

subsection \<open>Sample input\<close>

definition sample_line :: "string \<Rightarrow> string" where
  \<comment> \<open>A data line in the firmware's format, ending in the given trial id.\<close>
  "sample_line tid = ''0.10,512,498,530,477,501,1.5,-2.0,0.01,0.02,0.98,A,'' @ tid"

subsection \<open>Sample input for the calibration\<close>

definition digits_float :: "string \<Rightarrow> real option" where
  \<comment> \<open>A stand-in for \<^verbatim>\<open>float\<close> in the examples: it reads an unsigned decimal integer
      and rejects every other text.\<close>
  "digits_float s =
     (if s \<noteq> [] \<and> list_all (\<lambda>c. 48 \<le> (of_char c :: nat) \<and> (of_char c :: nat) \<le> 57) s
      then Some (real (foldl (\<lambda>n c. 10 * n + (of_char c - 48)) (0 :: nat) s))
      else None)"

subsection \<open>The text of the file: \<^verbatim>\<open>csv.writer\<close> and \<^verbatim>\<open>csv.reader\<close>\<close>

text \<open>
  \<^verbatim>\<open>main\<close> writes through \<^verbatim>\<open>csv.writer(f)\<close> with the default dialect: comma, double
  quote, doubled quotes inside a quoted field, minimal quoting, lines ended by CR LF. The
  file is opened with \<^verbatim>\<open>newline=""\<close>, so the text reaches the file as it is.
\<close>

definition CR :: char where "CR = CHR 0x0D"

definition LF :: char where "LF = CHR 0x0A"

definition needs_quotes :: "string \<Rightarrow> bool" where
  \<comment> \<open>Minimal quoting: a field with a delimiter, a quote or a line-end character.\<close>
  "needs_quotes f = list_ex (\<lambda>c. c = CHR '','' \<or> c = CHR 0x22 \<or> c = CR \<or> c = LF) f"

definition csv_field :: "string \<Rightarrow> string" where
  \<comment> \<open>One field as the writer renders it.\<close>
  "csv_field f =
     (if needs_quotes f
      then CHR 0x22 # concat (map (\<lambda>c. if c = CHR 0x22 then [c, c] else [c]) f) @ [CHR 0x22]
      else f)"

definition writerow :: "row \<Rightarrow> string" where
  \<comment> \<open>\<^verbatim>\<open>writer.writerow(r)\<close>; a row that is one empty field is written as two quotes.\<close>
  "writerow r =
     (if r = [[]] then [CHR 0x22, CHR 0x22] else join_on CHR '','' (map csv_field r)) @ [CR, LF]"

definition file_text :: "row list \<Rightarrow> string" where
  \<comment> \<open>The text of the file after the given calls of \<^verbatim>\<open>writerow\<close>.\<close>
  "file_text rows = concat (map writerow rows)"

text \<open>
  Reading back is \<^verbatim>\<open>csv.reader\<close> with the same dialect over the file opened with
  \<^verbatim>\<open>newline=""\<close>: the parser states of the \<^verbatim>\<open>csv\<close> module (the escape states are
  unused by this dialect), the current field and the fields of the current record. The
  reader is fed each line of the file and an end-of-line mark after it.
\<close>

datatype parser_state =
  START_RECORD | START_FIELD | IN_FIELD | IN_QUOTED_FIELD | QUOTE_IN_QUOTED_FIELD | EAT_CRNL

definition is_nl :: "char \<Rightarrow> bool" where
  "is_nl c = (c = CR \<or> c = LF)"

definition process_char ::
  "char \<Rightarrow> parser_state \<Rightarrow> string \<Rightarrow> row \<Rightarrow> (parser_state \<times> string \<times> row) option" where
  \<comment> \<open>One character of a line; \<open>None\<close> is \<^verbatim>\<open>csv.Error\<close>.\<close>
  "process_char c st fld flds =
     (case st of
        START_RECORD \<Rightarrow>
          if is_nl c then Some (EAT_CRNL, fld, flds)
          else if c = CHR 0x22 then Some (IN_QUOTED_FIELD, fld, flds)
          else if c = CHR '','' then Some (START_FIELD, [], flds @ [fld])
          else Some (IN_FIELD, fld @ [c], flds)
      | START_FIELD \<Rightarrow>
          if is_nl c then Some (EAT_CRNL, [], flds @ [fld])
          else if c = CHR 0x22 then Some (IN_QUOTED_FIELD, fld, flds)
          else if c = CHR '','' then Some (START_FIELD, [], flds @ [fld])
          else Some (IN_FIELD, fld @ [c], flds)
      | IN_FIELD \<Rightarrow>
          if is_nl c then Some (EAT_CRNL, [], flds @ [fld])
          else if c = CHR '','' then Some (START_FIELD, [], flds @ [fld])
          else Some (IN_FIELD, fld @ [c], flds)
      | IN_QUOTED_FIELD \<Rightarrow>
          if c = CHR 0x22 then Some (QUOTE_IN_QUOTED_FIELD, fld, flds)
          else Some (IN_QUOTED_FIELD, fld @ [c], flds)
      | QUOTE_IN_QUOTED_FIELD \<Rightarrow>
          if c = CHR 0x22 then Some (IN_QUOTED_FIELD, fld @ [c], flds)
          else if c = CHR '','' then Some (START_FIELD, [], flds @ [fld])
          else if is_nl c then Some (EAT_CRNL, [], flds @ [fld])
          else Some (IN_FIELD, fld @ [c], flds)
      | EAT_CRNL \<Rightarrow>
          if is_nl c then Some (EAT_CRNL, fld, flds) else None)"

definition process_eol :: "parser_state \<Rightarrow> string \<Rightarrow> row \<Rightarrow> parser_state \<times> string \<times> row" where
  \<comment> \<open>The end-of-line mark after a line.\<close>
  "process_eol st fld flds =
     (case st of
        START_RECORD \<Rightarrow> (START_RECORD, fld, flds)
      | START_FIELD \<Rightarrow> (START_RECORD, [], flds @ [fld])
      | IN_FIELD \<Rightarrow> (START_RECORD, [], flds @ [fld])
      | IN_QUOTED_FIELD \<Rightarrow> (IN_QUOTED_FIELD, fld, flds)
      | QUOTE_IN_QUOTED_FIELD \<Rightarrow> (START_RECORD, [], flds @ [fld])
      | EAT_CRNL \<Rightarrow> (START_RECORD, fld, flds))"

definition line_ends :: "char \<Rightarrow> string \<Rightarrow> bool" where
  \<comment> \<open>Whether a line of the file ends after \<open>c\<close>, the text after it being \<open>cs\<close>: after LF,
      after a CR that no LF follows, and at the end of the text.\<close>
  "line_ends c cs = (c = LF \<or> (c = CR \<and> (case cs of [] \<Rightarrow> True | d # ds \<Rightarrow> d \<noteq> LF)) \<or> cs = [])"

fun reader_run :: "parser_state \<Rightarrow> string \<Rightarrow> row \<Rightarrow> string \<Rightarrow> row list option" where
  \<comment> \<open>The records read from the rest of the text, from the given parser state; a record is
      complete when the parser is back in \<open>START_RECORD\<close> after a line.\<close>
  "reader_run st fld flds [] =
     (if fld \<noteq> [] \<or> st = IN_QUOTED_FIELD then Some [flds @ [fld]] else Some [])"
| "reader_run st fld flds (c # cs) =
     (case process_char c st fld flds of
        None \<Rightarrow> None
      | Some (st1, fld1, flds1) \<Rightarrow>
          if line_ends c cs then
            (case process_eol st1 fld1 flds1 of
               (st2, fld2, flds2) \<Rightarrow>
                 if st2 = START_RECORD
                 then map_option (\<lambda>recs. flds2 # recs) (reader_run START_RECORD [] [] cs)
                 else reader_run st2 fld2 flds2 cs)
          else reader_run st1 fld1 flds1 cs)"

definition csv_reader :: "string \<Rightarrow> row list option" where
  \<comment> \<open>\<^verbatim>\<open>list(csv.reader(f))\<close> on the text of the file.\<close>
  "csv_reader text = reader_run START_RECORD [] [] text"

section \<open>Properties of the logger\<close>

subsection \<open>One line\<close>

lemma on_line_ignored:
  "\<not> data_line raw \<Longrightarrow>
   current_rows (on_line raw s) = current_rows s \<and>
   trial_id_active (on_line raw s) = trial_id_active s \<and>
   written (on_line raw s) = written s \<and>
   acknowledgments (on_line raw s) = acknowledgments s"
  by (auto simp: on_line_def data_line_def Let_def acknowledgments_def)

lemma on_line_same:
  assumes "data_line raw"
    and "trial_id_active s = None \<or> trial_id_active s = Some (tid_of raw)"
    and "length (current_rows s) \<noteq> 74"
  shows "on_line raw s =
    s\<lparr>printed := printed s @ [Echo (strip raw)],
      trial_id_active := Some (tid_of raw),
      current_rows := current_rows s @ [row_of raw]\<rparr>"
  using assms
  by (auto simp: on_line_def data_line_def Let_def row_of_def tid_of_def ROWS_PER_TRIAL_def)

lemma on_line_quota:
  assumes "data_line raw"
    and "trial_id_active s = None \<or> trial_id_active s = Some (tid_of raw)"
    and "length (current_rows s) = 74"
  shows "on_line raw s =
    s\<lparr>printed := printed s @ [Echo (strip raw), Saved (tid_of raw) 75],
      trial_id_active := Some (tid_of raw),
      written := written s @ current_rows s @ [row_of raw],
      current_rows := []\<rparr>"
  using assms
  by (auto simp: on_line_def data_line_def Let_def row_of_def tid_of_def ROWS_PER_TRIAL_def shown_id_def)

lemma on_line_change:
  assumes "data_line raw"
    and "trial_id_active s = Some a" and "tid_of raw \<noteq> a"
  shows "on_line raw s =
    s\<lparr>printed := printed s @ [Echo (strip raw), Saved a (length (current_rows s))],
      written := written s @ current_rows s,
      current_rows := [row_of raw],
      trial_id_active := Some (tid_of raw)\<rparr>"
  using assms
  by (auto simp: on_line_def data_line_def Let_def row_of_def tid_of_def ROWS_PER_TRIAL_def shown_id_def)

lemma reader_loop_lines:
  "reader_loop (map Line (xs @ [x])) s = on_line x (reader_loop (map Line xs) s)"
  by (induction xs arbitrary: s) auto

lemma on_line_short: "length (current_rows s) < 75 \<Longrightarrow> length (current_rows (on_line raw s)) < 75"
  by (auto simp: on_line_def Let_def ROWS_PER_TRIAL_def)

lemma on_line_conserves:
  "written (on_line raw s) @ current_rows (on_line raw s) =
   written s @ current_rows s @ (if data_line raw then [row_of raw] else [])"
  by (auto simp: on_line_def data_line_def Let_def row_of_def)

lemma serial_reader_snoc:
  "serial_reader (map Line (xs @ [x])) w = on_line x (serial_reader (map Line xs) w)"
  unfolding serial_reader_def by (rule reader_loop_lines)

lemma serial_reader_Nil:
  "serial_reader [] w = \<lparr>current_rows = [], trial_id_active = None, written = w, printed = []\<rparr>"
  by (simp add: serial_reader_def)

subsection \<open>Runs of the reader loop\<close>

lemma same_id_loop:
  assumes "\<forall>l\<in>set ls. data_line l \<and> tid_of l = t"
    and "current_rows s0 = []"
    and "trial_id_active s0 = None \<or> trial_id_active s0 = Some t"
  shows "written (reader_loop (map Line ls) s0) =
           written s0 @ map row_of (take (length ls - length ls mod 75) ls) \<and>
         current_rows (reader_loop (map Line ls) s0) =
           map row_of (drop (length ls - length ls mod 75) ls) \<and>
         trial_id_active (reader_loop (map Line ls) s0) =
           (if ls = [] then trial_id_active s0 else Some t) \<and>
         acknowledgments (reader_loop (map Line ls) s0) =
           acknowledgments s0 @ replicate (length ls div 75) (Saved t 75)"
  using assms(1)
proof (induction ls rule: rev_induct)
  case Nil
  show ?case using assms(2) by simp
next
  case (snoc x xs)
  define s where "s = reader_loop (map Line xs) s0"
  define n where "n = length xs"
  define k where "k = n mod 75"
  from snoc have ih:
    "written s = written s0 @ map row_of (take (n - k) xs)"
    "current_rows s = map row_of (drop (n - k) xs)"
    "trial_id_active s = (if xs = [] then trial_id_active s0 else Some t)"
    "acknowledgments s = acknowledgments s0 @ replicate (n div 75) (Saved t 75)"
    by (simp_all add: s_def n_def k_def)
  from snoc.prems have x: "data_line x" "tid_of x = t" by simp_all
  have act: "trial_id_active s = None \<or> trial_id_active s = Some (tid_of x)"
    using ih(3) x(2) assms(3) by auto
  have kn: "k \<le> n" "k < 75" by (simp_all add: k_def)
  have len: "length (current_rows s) = k"
    using ih(2) kn by (simp add: n_def)
  have run: "reader_loop (map Line (xs @ [x])) s0 = on_line x s"
    unfolding s_def by (rule reader_loop_lines)
  have goal_len: "length (xs @ [x]) = Suc n" by (simp add: n_def)
  show ?case
  proof (cases "k = 74")
    case True
    then have m: "Suc n mod 75 = 0" "Suc n div 75 = Suc (n div 75)"
      unfolding k_def by (simp_all add: mod_Suc div_Suc)
    have step: "on_line x s =
      s\<lparr>printed := printed s @ [Echo (strip x), Saved (tid_of x) 75],
        trial_id_active := Some (tid_of x),
        written := written s @ current_rows s @ [row_of x],
        current_rows := []\<rparr>"
      using on_line_quota [OF x(1) act] len True by simp
    have all: "written s @ current_rows s = written s0 @ map row_of xs"
      unfolding ih(1) ih(2) using kn by (simp add: n_def flip: map_append)
    have 1: "written (on_line x s) = written s0 @ map row_of (xs @ [x])"
      unfolding step using all by simp
    have 2: "current_rows (on_line x s) = []"
      unfolding step by simp
    have 3: "trial_id_active (on_line x s) = Some t"
      unfolding step using x(2) by simp
    have 4: "acknowledgments (on_line x s) =
        acknowledgments s0 @ replicate (Suc (n div 75)) (Saved t 75)"
      unfolding step using ih(4) x(2)
      by (simp add: acknowledgments_def replicate_append_same)
    show ?thesis
      unfolding run goal_len m using 1 2 3 4 by (simp add: n_def)
  next
    case False
    then have m: "Suc n mod 75 = Suc k" "Suc n div 75 = n div 75"
      unfolding k_def by (simp_all add: mod_Suc div_Suc)
    have step: "on_line x s =
      s\<lparr>printed := printed s @ [Echo (strip x)],
        trial_id_active := Some (tid_of x),
        current_rows := current_rows s @ [row_of x]\<rparr>"
      using on_line_same [OF x(1) act] len False by simp
    have d: "Suc n - Suc k = n - k" by simp
    have 1: "written (on_line x s) = written s0 @ map row_of (take (n - k) (xs @ [x]))"
      unfolding step using ih(1) by (simp add: n_def)
    have 2: "current_rows (on_line x s) = map row_of (drop (n - k) (xs @ [x]))"
      unfolding step using ih(2) by (simp add: n_def)
    have 3: "trial_id_active (on_line x s) = Some t"
      unfolding step using x(2) by simp
    have 4: "acknowledgments (on_line x s) = acknowledgments s0 @ replicate (n div 75) (Saved t 75)"
      unfolding step using ih(4) by (simp add: acknowledgments_def)
    show ?thesis
      unfolding run goal_len m d using 1 2 3 4 by simp
  qed
qed

lemma reader_loop_short:
  "length (current_rows s) < 75 \<Longrightarrow> length (current_rows (reader_loop ser s)) < 75"
proof (induction ser s rule: reader_loop.induct)
  case (2 raw rs s)
  then show ?case by (simp add: on_line_short)
qed simp_all

lemma reader_loop_conserves:
  "written (reader_loop ser s) @ current_rows (reader_loop ser s) =
   written s @ current_rows s @ accepted_rows ser"
proof (induction ser s rule: reader_loop.induct)
  case (2 raw rs s)
  have "written (reader_loop rs (on_line raw s)) @ current_rows (reader_loop rs (on_line raw s)) =
        (written (on_line raw s) @ current_rows (on_line raw s)) @ accepted_rows rs"
    using 2 by simp
  also have "\<dots> = written s @ current_rows s @ accepted_rows (Line raw # rs)"
    unfolding on_line_conserves by simp
  finally show ?case by simp
qed simp_all

lemma split_on_not_Nil: "split_on c s \<noteq> []"
  by (induction s) (auto split: list.splits)

lemma join_split: "join_on c (split_on c s) = s"
proof (induction s)
  case Nil
  show ?case by simp
next
  case (Cons x xs)
  obtain f fs where sp: "split_on c xs = f # fs"
    using split_on_not_Nil [of c xs] by (cases "split_on c xs") auto
  show ?case using Cons sp by (cases fs) auto
qed

lemma data_row_not_header:
  assumes "data_line raw" shows "row_of raw \<noteq> header_row"
proof
  assume "row_of raw = header_row"
  then have "join_on CHR '','' (split_on CHR '','' (strip raw)) =
             join_on CHR '','' (split_on CHR '','' HEADER)"
    by (simp add: row_of_def header_row_def)
  then have "strip raw = HEADER" by (simp only: join_split)
  moreover have "startswith HEADER ''t_s,''" by (simp add: startswith_def HEADER_def)
  ultimately show False using assms by (simp add: data_line_def)
qed

lemma header_not_accepted: "header_row \<notin> set (accepted_rows ser)"
  by (induction ser rule: accepted_rows.induct) (auto dest: data_row_not_header)

subsection \<open>The sample lines\<close>

lemma sample_strip: "strip (sample_line ''1'') = ''0.10,512,498,530,477,501,1.5,-2.0,0.01,0.02,0.98,A,1''"
  by (simp add: sample_line_def strip_def isspace_def)

lemma sample_line_data: "data_line (sample_line ''1'')"
  by (simp add: data_line_def sample_strip startswith_def count_char_def)

lemma sample_line_row: "row_of (sample_line ''1'') = [''0.10'',''512'',''498'',''530'',''477'',''501'',''1.5'',''-2.0'',''0.01'',''0.02'',''0.98'',''A'',''1'']"
  by (simp add: row_of_def sample_strip)

lemma sample_line_tid: "tid_of (sample_line ''1'') = ''1''"
  by (simp add: tid_of_def sample_line_row)

lemma sample_strip2: "strip (sample_line ''2'') = ''0.10,512,498,530,477,501,1.5,-2.0,0.01,0.02,0.98,A,2''"
  by (simp add: sample_line_def strip_def isspace_def)

lemma sample_line_data2: "data_line (sample_line ''2'')"
  by (simp add: data_line_def sample_strip2 startswith_def count_char_def)

lemma sample_line_row2: "row_of (sample_line ''2'') = [''0.10'',''512'',''498'',''530'',''477'',''501'',''1.5'',''-2.0'',''0.01'',''0.02'',''0.98'',''A'',''2'']"
  by (simp add: row_of_def sample_strip2)

lemma sample_line_tid2: "tid_of (sample_line ''2'') = ''2''"
  by (simp add: tid_of_def sample_line_row2)

lemma serial_reader_short: "length (current_rows (serial_reader ser w)) < 75"
  unfolding serial_reader_def by (rule reader_loop_short) simp

lemma same_id_run:
  assumes "\<forall>l\<in>set ls. data_line l \<and> tid_of l = t"
  shows "written (serial_reader (map Line ls) w) =
           w @ map row_of (take (length ls - length ls mod 75) ls)"
    and "current_rows (serial_reader (map Line ls) w) =
           map row_of (drop (length ls - length ls mod 75) ls)"
    and "trial_id_active (serial_reader (map Line ls) w) = (if ls = [] then None else Some t)"
    and "acknowledgments (serial_reader (map Line ls) w) =
           replicate (length ls div 75) (Saved t 75)"
  using same_id_loop [OF assms, of "\<lparr>current_rows = [], trial_id_active = None, written = w, printed = []\<rparr>"]
  by (simp_all add: serial_reader_def acknowledgments_def)

lemma header_line_ignored: "startswith (strip HEADER) ''t_s,''"
  by (simp add: HEADER_def strip_def isspace_def startswith_def)

lemma on_line_written_grows: "\<exists>rs. written (on_line raw s) = written s @ rs"
  by (simp add: on_line_def Let_def)

lemma reader_loop_written_grows: "\<exists>rs. written (reader_loop ser s) = written s @ rs"
proof (induction ser s rule: reader_loop.induct)
  case (2 raw rs s)
  then show ?case using on_line_written_grows [of raw s] by auto
qed simp_all

lemma store_split:
  "\<exists>done. written (serial_reader ser [header_row]) = header_row # done \<and>
          done @ current_rows (serial_reader ser [header_row]) = accepted_rows ser"
proof -
  define s0 where
    "s0 = \<lparr>current_rows = [], trial_id_active = None, written = [header_row], printed = []\<rparr>"
  obtain rs where rs: "written (reader_loop ser s0) = header_row # rs"
    using reader_loop_written_grows [of ser s0] by (auto simp: s0_def)
  have "written (reader_loop ser s0) @ current_rows (reader_loop ser s0) =
        header_row # accepted_rows ser"
    using reader_loop_conserves [of ser s0] by (simp add: s0_def)
  then have "rs @ current_rows (reader_loop ser s0) = accepted_rows ser"
    unfolding rs by simp
  then show ?thesis using rs unfolding serial_reader_def s0_def by blast
qed

lemma reader_loop_append_lines:
  "reader_loop (map Line xs @ rs) s = reader_loop rs (reader_loop (map Line xs) s)"
  by (induction xs arbitrary: s) auto

lemma accepted_rows_data:
  "\<forall>l\<in>set ls. data_line l \<Longrightarrow> accepted_rows (map Line ls @ rs) = map row_of ls @ accepted_rows rs"
  by (induction ls) auto

lemma on_line_acknowledged:
  "length (current_rows s) < 75 \<Longrightarrow>
   length (written (on_line raw s)) + sum_list (map saved_rows (printed s)) =
   length (written s) + sum_list (map saved_rows (printed (on_line raw s)))"
  by (auto simp: on_line_def Let_def ROWS_PER_TRIAL_def)

lemma reader_loop_acknowledged:
  "length (current_rows s) < 75 \<Longrightarrow>
   length (written (reader_loop ser s)) + sum_list (map saved_rows (printed s)) =
   length (written s) + sum_list (map saved_rows (printed (reader_loop ser s)))"
proof (induction ser s rule: reader_loop.induct)
  case (2 raw rs s)
  have "length (current_rows (on_line raw s)) < 75"
    using 2(2) by (rule on_line_short)
  from 2(1) [OF this] on_line_acknowledged [OF 2(2), of raw] show ?case by simp
qed simp_all

lemma row_of_not_Nil: "row_of raw \<noteq> []"
  by (simp add: row_of_def split_on_not_Nil)

lemma accepted_rows_not_Nil: "\<forall>r\<in>set (accepted_rows ser). r \<noteq> []"
  by (induction ser rule: accepted_rows.induct) (auto simp: row_of_not_Nil)

subsection \<open>Reading the written text back\<close>

lemma quoted_content:
  "rest \<noteq> [] \<Longrightarrow>
   reader_run IN_QUOTED_FIELD cur flds
     (concat (map (\<lambda>c. if c = CHR 0x22 then [c, c] else [c]) f) @ rest) =
   reader_run IN_QUOTED_FIELD (cur @ f) flds rest"
proof (induction f arbitrary: cur)
  case Nil
  show ?case by simp
next
  case (Cons c f)
  let ?tail = "concat (map (\<lambda>c. if c = CHR 0x22 then [c, c] else [c]) f) @ rest"
  have ne: "?tail \<noteq> []" using Cons.prems by simp
  show ?case
  proof (cases "c = CHR 0x22")
    case True
    have "reader_run IN_QUOTED_FIELD cur flds (c # c # ?tail) =
          reader_run IN_QUOTED_FIELD (cur @ [c]) flds ?tail"
      using ne True by (simp add: process_char_def line_ends_def LF_def CR_def process_eol_def)
    then show ?thesis using Cons.IH [OF Cons.prems, of "cur @ [c]"] True by simp
  next
    case False
    have "reader_run IN_QUOTED_FIELD cur flds (c # ?tail) =
          reader_run IN_QUOTED_FIELD (cur @ [c]) flds ?tail"
      using False by (simp add: process_char_def process_eol_def)
    then show ?thesis using Cons.IH [OF Cons.prems, of "cur @ [c]"] False by simp
  qed
qed

lemma plain_content:
  "\<not> needs_quotes f \<Longrightarrow> rest \<noteq> [] \<Longrightarrow>
   reader_run IN_FIELD cur flds (f @ rest) = reader_run IN_FIELD (cur @ f) flds rest"
proof (induction f arbitrary: cur)
  case Nil
  show ?case by simp
next
  case (Cons c f)
  have c: "c \<noteq> CHR '',''" "c \<noteq> CHR 0x22" "c \<noteq> CR" "c \<noteq> LF" and f: "\<not> needs_quotes f"
    using Cons.prems(1) by (auto simp: needs_quotes_def)
  have "reader_run IN_FIELD cur flds (c # f @ rest) = reader_run IN_FIELD (cur @ [c]) flds (f @ rest)"
    using c Cons.prems(2) by (simp add: process_char_def line_ends_def is_nl_def)
  then show ?case using Cons.IH [OF f Cons.prems(2), of "cur @ [c]"] by simp
qed

lemma field_then_comma:
  assumes "st = START_FIELD \<or> st = START_RECORD" and "rest \<noteq> []"
  shows "reader_run st [] flds (csv_field f @ CHR '','' # rest) =
         reader_run START_FIELD [] (flds @ [f]) rest"
proof (cases "needs_quotes f")
  case True
  let ?esc = "concat (map (\<lambda>c. if c = CHR 0x22 then [c, c] else [c]) f)"
  have "reader_run st [] flds (CHR 0x22 # ?esc @ CHR 0x22 # CHR '','' # rest) =
        reader_run IN_QUOTED_FIELD [] flds (?esc @ CHR 0x22 # CHR '','' # rest)"
    using assms(1) by (auto simp: process_char_def line_ends_def is_nl_def CR_def LF_def)
  also have "\<dots> = reader_run IN_QUOTED_FIELD f flds (CHR 0x22 # CHR '','' # rest)"
    using quoted_content [of "CHR 0x22 # CHR '','' # rest" "[]" flds f] by simp
  also have "\<dots> = reader_run START_FIELD [] (flds @ [f]) rest"
    using assms(2) by (simp add: process_char_def line_ends_def is_nl_def CR_def LF_def)
  finally show ?thesis using True by (simp add: csv_field_def)
next
  case False
  show ?thesis
  proof (cases f)
    case Nil
    then show ?thesis
      using assms False
      by (auto simp: csv_field_def process_char_def line_ends_def is_nl_def CR_def LF_def)
  next
    case (Cons c f')
    have c: "c \<noteq> CHR '',''" "c \<noteq> CHR 0x22" "c \<noteq> CR" "c \<noteq> LF" and f': "\<not> needs_quotes f'"
      using False Cons by (auto simp: needs_quotes_def)
    have "reader_run st [] flds (c # f' @ CHR '','' # rest) =
          reader_run IN_FIELD [c] flds (f' @ CHR '','' # rest)"
      using assms(1) c by (auto simp: process_char_def line_ends_def is_nl_def)
    also have "\<dots> = reader_run IN_FIELD (c # f') flds (CHR '','' # rest)"
      using plain_content [OF f', of "CHR '','' # rest" "[c]" flds] by simp
    also have "\<dots> = reader_run START_FIELD [] (flds @ [f]) rest"
      using assms(2) Cons by (simp add: process_char_def line_ends_def is_nl_def CR_def LF_def)
    finally show ?thesis using False Cons by (simp add: csv_field_def)
  qed
qed

lemma record_end:
  assumes "st = IN_FIELD \<or> st = QUOTE_IN_QUOTED_FIELD \<or> st = START_FIELD"
  shows "reader_run st fld flds (CR # LF # rest) =
         map_option (\<lambda>recs. (flds @ [fld]) # recs) (reader_run START_RECORD [] [] rest)"
  using assms
  by (auto simp: process_char_def process_eol_def line_ends_def is_nl_def CR_def LF_def)

lemma field_then_line_end:
  assumes "st = START_FIELD \<or> (st = START_RECORD \<and> f \<noteq> [])"
  shows "reader_run st [] flds (csv_field f @ CR # LF # rest) =
         map_option (\<lambda>recs. (flds @ [f]) # recs) (reader_run START_RECORD [] [] rest)"
proof (cases "needs_quotes f")
  case True
  let ?esc = "concat (map (\<lambda>c. if c = CHR 0x22 then [c, c] else [c]) f)"
  have "reader_run st [] flds (CHR 0x22 # ?esc @ CHR 0x22 # CR # LF # rest) =
        reader_run IN_QUOTED_FIELD [] flds (?esc @ CHR 0x22 # CR # LF # rest)"
    using assms by (auto simp: process_char_def line_ends_def is_nl_def CR_def LF_def)
  also have "\<dots> = reader_run IN_QUOTED_FIELD f flds (CHR 0x22 # CR # LF # rest)"
    using quoted_content [of "CHR 0x22 # CR # LF # rest" "[]" flds f] by simp
  also have "\<dots> = reader_run QUOTE_IN_QUOTED_FIELD f flds (CR # LF # rest)"
    by (simp add: process_char_def line_ends_def is_nl_def CR_def LF_def)
  finally show ?thesis using True record_end [of QUOTE_IN_QUOTED_FIELD f flds rest]
    by (simp add: csv_field_def)
next
  case False
  show ?thesis
  proof (cases f)
    case Nil
    then have "st = START_FIELD" using assms by auto
    then show ?thesis
      using Nil False record_end [of START_FIELD "[]" flds rest] by (simp add: csv_field_def)
  next
    case (Cons c f')
    have c: "c \<noteq> CHR '',''" "c \<noteq> CHR 0x22" "c \<noteq> CR" "c \<noteq> LF" and f': "\<not> needs_quotes f'"
      using False Cons by (auto simp: needs_quotes_def)
    have "reader_run st [] flds (c # f' @ CR # LF # rest) =
          reader_run IN_FIELD [c] flds (f' @ CR # LF # rest)"
      using assms c by (auto simp: process_char_def line_ends_def is_nl_def)
    also have "\<dots> = reader_run IN_FIELD (c # f') flds (CR # LF # rest)"
      using plain_content [OF f', of "CR # LF # rest" "[c]" flds] by simp
    finally show ?thesis
      using False Cons record_end [of IN_FIELD f flds rest] by (simp add: csv_field_def)
  qed
qed

lemma fields_then_line_end:
  "reader_run START_FIELD [] flds (join_on CHR '','' (map csv_field (f # fs)) @ CR # LF # rest) =
   map_option (\<lambda>recs. (flds @ f # fs) # recs) (reader_run START_RECORD [] [] rest)"
proof (induction fs arbitrary: f flds)
  case Nil
  show ?case using field_then_line_end [of START_FIELD f flds rest] by simp
next
  case (Cons g gs)
  have ne: "join_on CHR '','' (map csv_field (g # gs)) @ CR # LF # rest \<noteq> []" by simp
  have "reader_run START_FIELD [] flds
          (csv_field f @ CHR '','' # join_on CHR '','' (map csv_field (g # gs)) @ CR # LF # rest) =
        reader_run START_FIELD [] (flds @ [f])
          (join_on CHR '','' (map csv_field (g # gs)) @ CR # LF # rest)"
    using ne by (intro field_then_comma) simp_all
  then show ?case using Cons.IH [of "flds @ [f]" g] by simp
qed

lemma row_read_back:
  assumes "r \<noteq> []"
  shows "reader_run START_RECORD [] [] (writerow r @ rest) =
         map_option (\<lambda>recs. r # recs) (reader_run START_RECORD [] [] rest)"
proof (cases r)
  case Nil
  then show ?thesis using assms by simp
next
  case (Cons f fs)
  show ?thesis
  proof (cases fs)
    case Nil
    show ?thesis
    proof (cases "f = []")
      case True
      then show ?thesis
        using Cons Nil
        by (simp add: writerow_def process_char_def process_eol_def line_ends_def is_nl_def
            CR_def LF_def)
    next
      case False
      then show ?thesis
        using Cons Nil field_then_line_end [of START_RECORD f "[]" rest]
        by (simp add: writerow_def)
    qed
  next
    case (Cons g gs)
    have ne: "join_on CHR '','' (map csv_field (g # gs)) @ CR # LF # rest \<noteq> []" by simp
    have "reader_run START_RECORD [] []
            (csv_field f @ CHR '','' # join_on CHR '','' (map csv_field (g # gs)) @ CR # LF # rest) =
          reader_run START_FIELD [] [f]
            (join_on CHR '','' (map csv_field (g # gs)) @ CR # LF # rest)"
      using ne field_then_comma [of START_RECORD _ "[]" f] by simp
    then show ?thesis
      using \<open>r = f # fs\<close> Cons fields_then_line_end [of "[f]" g gs rest]
      by (simp add: writerow_def)
  qed
qed

lemma file_read_back:
  "\<forall>r\<in>set rows. r \<noteq> [] \<Longrightarrow> csv_reader (file_text rows) = Some rows"
proof (induction rows)
  case Nil
  show ?case by (simp add: csv_reader_def file_text_def)
next
  case (Cons r rows)
  then have r: "r \<noteq> []" and ih: "csv_reader (file_text rows) = Some rows" by simp_all
  show ?case
    using row_read_back [OF r, of "file_text rows"] ih
    by (simp add: csv_reader_def file_text_def)
qed

subsection \<open>The rows of the last trial\<close>

lemma trailing_run_Nil: "trailing_run [] = 0"
  by (simp add: trailing_run_def)

lemma trailing_run_snoc:
  "trailing_run (h @ [t]) = (if h \<noteq> [] \<and> last h = t then Suc (trailing_run h) else 1)"
proof (cases h rule: rev_cases)
  case Nil
  then show ?thesis by (simp add: trailing_run_def)
next
  case (snoc ys y)
  then show ?thesis by (simp add: trailing_run_def)
qed

lemma on_line_last_trial:
  assumes act: "trial_id_active s = (if h = [] then None else Some (last h))"
    and len: "length (current_rows s) = trailing_run h mod 75"
  shows "trial_id_active (on_line raw s) =
           (if h @ trial_ids [Line raw] = [] then None else Some (last (h @ trial_ids [Line raw]))) \<and>
         length (current_rows (on_line raw s)) = trailing_run (h @ trial_ids [Line raw]) mod 75"
proof (cases "data_line raw")
  case False
  then show ?thesis using act len on_line_ignored [OF False, of s] by simp
next
  case True
  have ids: "trial_ids [Line raw] = [tid_of raw]" using True by simp
  show ?thesis
  proof (cases "h \<noteq> [] \<and> last h \<noteq> tid_of raw")
    case change: True
    then have a: "trial_id_active s = Some (last h)" using act by simp
    have step: "on_line raw s =
      s\<lparr>printed := printed s @ [Echo (strip raw), Saved (last h) (length (current_rows s))],
        written := written s @ current_rows s,
        current_rows := [row_of raw],
        trial_id_active := Some (tid_of raw)\<rparr>"
      using on_line_change [OF True a] change by auto
    show ?thesis unfolding ids step using change by (simp add: trailing_run_snoc)
  next
    case same: False
    then have a: "trial_id_active s = None \<or> trial_id_active s = Some (tid_of raw)"
      using act by auto
    have run: "trailing_run (h @ [tid_of raw]) = Suc (trailing_run h)"
    proof (cases "h = []")
      case True
      then show ?thesis by (simp add: trailing_run_def)
    next
      case False
      then show ?thesis using same by (simp add: trailing_run_snoc)
    qed
    show ?thesis
    proof (cases "length (current_rows s) = 74")
      case True
      have step: "on_line raw s =
        s\<lparr>printed := printed s @ [Echo (strip raw), Saved (tid_of raw) 75],
          trial_id_active := Some (tid_of raw),
          written := written s @ current_rows s @ [row_of raw],
          current_rows := []\<rparr>"
        using on_line_quota [OF \<open>data_line raw\<close> a True] .
      have "Suc (trailing_run h) mod 75 = 0"
        using len True by (simp add: mod_Suc)
      then show ?thesis unfolding ids step run by simp
    next
      case False
      have step: "on_line raw s =
        s\<lparr>printed := printed s @ [Echo (strip raw)],
          trial_id_active := Some (tid_of raw),
          current_rows := current_rows s @ [row_of raw]\<rparr>"
        using on_line_same [OF \<open>data_line raw\<close> a False] .
      have "Suc (trailing_run h) mod 75 = Suc (length (current_rows s))"
        using len False by (simp add: mod_Suc)
      then show ?thesis unfolding ids step run by simp
    qed
  qed
qed

lemma reader_loop_last_trial:
  "trial_id_active s = (if h = [] then None else Some (last h)) \<Longrightarrow>
   length (current_rows s) = trailing_run h mod 75 \<Longrightarrow>
   length (current_rows (reader_loop ser s)) = trailing_run (h @ trial_ids ser) mod 75"
proof (induction ser s arbitrary: h rule: reader_loop.induct)
  case (1 s)
  then show ?case by simp
next
  case (2 raw rs s)
  note step = on_line_last_trial [OF 2(2) 2(3), of raw]
  have "length (current_rows (reader_loop rs (on_line raw s))) =
        trailing_run ((h @ trial_ids [Line raw]) @ trial_ids rs) mod 75"
    using step by (intro 2(1)) simp_all
  then show ?case by simp
next
  case (3 rs s)
  then show ?case by simp
qed

lemma buffer_is_unflushed:
  "length (current_rows (serial_reader ser w)) = unflushed ser"
  using reader_loop_last_trial [of "\<lparr>current_rows = [], trial_id_active = None, written = w, printed = []\<rparr>" "[]" ser]
  by (simp add: serial_reader_def unflushed_def last_trial_rows_def ROWS_PER_TRIAL_def trailing_run_Nil)

lemma trailing_run_last_run:
  assumes "0 < n" and "h = [] \<or> last h \<noteq> t"
  shows "trailing_run (h @ replicate n t) = n"
proof -
  obtain m where n: "n = Suc m" using assms(1) by (cases n) auto
  have "takeWhile (\<lambda>u. u = t) (rev h) = []"
    using assms(2) by (cases h rule: rev_cases) auto
  then have "takeWhile (\<lambda>u. u = t) (replicate m t @ rev h) = replicate m t"
    by (induction m) simp_all
  then show ?thesis
    unfolding trailing_run_def n by (simp add: replicate_append_same)
qed

lemma trial_ids_data:
  "\<forall>l\<in>set ls. data_line l \<Longrightarrow> trial_ids (map Line ls @ rs) = map tid_of ls @ trial_ids rs"
  by (induction ls) auto

lemma acknowledged_total:
  "sum_list (map saved_rows (printed (serial_reader ser [header_row]))) + unflushed ser =
     length (accepted_rows ser)"
proof -
  define s0 where
    "s0 = \<lparr>current_rows = [], trial_id_active = None, written = [header_row], printed = []\<rparr>"
  have a: "length (written (reader_loop ser s0)) =
           1 + sum_list (map saved_rows (printed (reader_loop ser s0)))"
    using reader_loop_acknowledged [of s0 ser] by (simp add: s0_def)
  obtain flushed where f: "written (reader_loop ser s0) = header_row # flushed"
      "flushed @ current_rows (reader_loop ser s0) = accepted_rows ser"
    using store_split [of ser] unfolding serial_reader_def s0_def by blast
  have k: "length (current_rows (reader_loop ser s0)) = unflushed ser"
    using buffer_is_unflushed [of ser "[header_row]"] by (simp add: serial_reader_def s0_def)
  have "length flushed + unflushed ser = length (accepted_rows ser)"
    using f(2) k by (metis length_append)
  then show ?thesis
    using a f(1) by (simp add: serial_reader_def s0_def)
qed

section \<open>The claims about the logger\<close>

text \<open>
  C1. Starting with an empty buffer, 75 data rows that share one trial id make the reader
  write exactly those 75 rows, print exactly one acknowledgment (that id, 75 rows), empty
  the buffer and keep the id; before the 75th row nothing is written or acknowledged.
\<close>

theorem quota_flush_same_id:
  assumes "\<forall>l\<in>set ls. data_line l \<and> tid_of l = t" and "length ls = 75"
    and "current_rows s0 = []"
    and "trial_id_active s0 = None \<or> trial_id_active s0 = Some t"
  shows "written (reader_loop (map Line ls) s0) = written s0 @ map row_of ls \<and>
         length (map row_of ls) = 75 \<and>
         acknowledgments (reader_loop (map Line ls) s0) = acknowledgments s0 @ [Saved t 75] \<and>
         current_rows (reader_loop (map Line ls) s0) = [] \<and>
         trial_id_active (reader_loop (map Line ls) s0) = Some t \<and>
         (\<forall>n<75. written (reader_loop (map Line (take n ls)) s0) = written s0 \<and>
                 acknowledgments (reader_loop (map Line (take n ls)) s0) = acknowledgments s0 \<and>
                 current_rows (reader_loop (map Line (take n ls)) s0) = map row_of (take n ls))"
proof -
  have ne: "ls \<noteq> []" using assms(2) by auto
  have full: "written (reader_loop (map Line ls) s0) = written s0 @ map row_of ls"
    "acknowledgments (reader_loop (map Line ls) s0) = acknowledgments s0 @ [Saved t 75]"
    "current_rows (reader_loop (map Line ls) s0) = []"
    "trial_id_active (reader_loop (map Line ls) s0) = Some t"
    using same_id_loop [OF assms(1,3,4)] assms(2) ne by simp_all
  have part: "written (reader_loop (map Line (take n ls)) s0) = written s0 \<and>
       acknowledgments (reader_loop (map Line (take n ls)) s0) = acknowledgments s0 \<and>
       current_rows (reader_loop (map Line (take n ls)) s0) = map row_of (take n ls)"
    if "n < 75" for n
  proof -
    have sub: "\<forall>l\<in>set (take n ls). data_line l \<and> tid_of l = t"
      using assms(1) by (meson in_set_takeD)
    have len: "length (take n ls) = n" using that assms(2) by simp
    show ?thesis
      using same_id_loop [OF sub assms(3,4)] that unfolding len by simp
  qed
  have l75: "length (map row_of ls) = 75" using assms(2) by simp
  show ?thesis using full l75 part by blast
qed

text \<open>Scenario A: 75 rows with trial id 1, read by a fresh reader after the header.\<close>

theorem quota_flush_same_id_witness:
  "written (serial_reader (map Line (replicate 75 (sample_line ''1''))) [header_row]) =
     header_row # replicate 75 (row_of (sample_line ''1'')) \<and>
   acknowledgments (serial_reader (map Line (replicate 75 (sample_line ''1''))) [header_row]) =
     [Saved ''1'' 75] \<and>
   current_rows (serial_reader (map Line (replicate 75 (sample_line ''1''))) [header_row]) = [] \<and>
   trial_id_active (serial_reader (map Line (replicate 75 (sample_line ''1''))) [header_row]) =
     Some ''1''"
proof -
  define s0 where
    "s0 = \<lparr>current_rows = [], trial_id_active = None, written = [header_row], printed = []\<rparr>"
  define ls where "ls = replicate 75 (sample_line ''1'')"
  have h1: "\<forall>l\<in>set ls. data_line l \<and> tid_of l = ''1''"
    by (simp add: ls_def sample_line_data sample_line_tid)
  have h2: "length ls = 75" by (simp add: ls_def)
  have h3: "current_rows s0 = []" by (simp add: s0_def)
  have h4: "trial_id_active s0 = None \<or> trial_id_active s0 = Some ''1''" by (simp add: s0_def)
  note r = quota_flush_same_id [OF h1 h2 h3 h4]
  have w: "written s0 = [header_row]" "acknowledgments s0 = []"
    by (simp_all add: s0_def acknowledgments_def)
  have m: "map row_of ls = replicate 75 (row_of (sample_line ''1''))" by (simp add: ls_def)
  have run: "serial_reader (map Line ls) [header_row] = reader_loop (map Line ls) s0"
    by (simp add: serial_reader_def s0_def)
  from r have "written (reader_loop (map Line ls) s0) = written s0 @ map row_of ls"
    and "acknowledgments (reader_loop (map Line ls) s0) = acknowledgments s0 @ [Saved ''1'' 75]"
    and "current_rows (reader_loop (map Line ls) s0) = []"
    and "trial_id_active (reader_loop (map Line ls) s0) = Some ''1''"
    by blast+
  then show ?thesis
    unfolding ls_def [symmetric] run w m by simp
qed

text \<open>
  C2. Whatever lines came before, when a data row arrives whose trial id differs from the
  active one, the buffer holds fewer than 75 rows; exactly these rows are written, exactly
  one acknowledgment is printed (the previous id, that number of rows), the active id becomes
  the new id and the buffer holds the triggering row alone.
\<close>

theorem id_change_flushes_short_trial:
  assumes "data_line l"
    and "trial_id_active (serial_reader (map Line pre) w) = Some a"
    and "tid_of l \<noteq> a"
  shows "length (current_rows (serial_reader (map Line pre) w)) < 75 \<and>
         written (serial_reader (map Line (pre @ [l])) w) =
           written (serial_reader (map Line pre) w) @ current_rows (serial_reader (map Line pre) w) \<and>
         acknowledgments (serial_reader (map Line (pre @ [l])) w) =
           acknowledgments (serial_reader (map Line pre) w) @
             [Saved a (length (current_rows (serial_reader (map Line pre) w)))] \<and>
         current_rows (serial_reader (map Line (pre @ [l])) w) = [row_of l] \<and>
         trial_id_active (serial_reader (map Line (pre @ [l])) w) = Some (tid_of l)"
proof -
  define s where "s = serial_reader (map Line pre) w"
  have step: "serial_reader (map Line (pre @ [l])) w =
      s\<lparr>printed := printed s @ [Echo (strip l), Saved a (length (current_rows s))],
        written := written s @ current_rows s,
        current_rows := [row_of l],
        trial_id_active := Some (tid_of l)\<rparr>"
    unfolding serial_reader_snoc s_def [symmetric]
    using assms by (intro on_line_change) (simp_all add: s_def)
  have short: "length (current_rows s) < 75"
    unfolding s_def by (rule serial_reader_short)
  show ?thesis
    unfolding s_def [symmetric] step using short by (simp add: acknowledgments_def)
qed

text \<open>Scenario B: 40 rows with trial id 1, then one row with trial id 2.\<close>

theorem id_change_flushes_short_trial_witness:
  "written (serial_reader (map Line (replicate 40 (sample_line ''1'') @ [sample_line ''2''])) [header_row]) =
     header_row # replicate 40 (row_of (sample_line ''1'')) \<and>
   acknowledgments (serial_reader (map Line (replicate 40 (sample_line ''1'') @ [sample_line ''2''])) [header_row]) =
     [Saved ''1'' 40] \<and>
   current_rows (serial_reader (map Line (replicate 40 (sample_line ''1'') @ [sample_line ''2''])) [header_row]) =
     [row_of (sample_line ''2'')] \<and>
   trial_id_active (serial_reader (map Line (replicate 40 (sample_line ''1'') @ [sample_line ''2''])) [header_row]) =
     Some ''2''"
proof -
  define pre where "pre = replicate 40 (sample_line ''1'')"
  have h: "\<forall>l\<in>set pre. data_line l \<and> tid_of l = ''1''"
    by (simp add: pre_def sample_line_data sample_line_tid)
  have n: "length pre = 40" "pre \<noteq> []" by (simp_all add: pre_def)
  have before: "written (serial_reader (map Line pre) [header_row]) = [header_row]"
    "current_rows (serial_reader (map Line pre) [header_row]) = replicate 40 (row_of (sample_line ''1''))"
    "trial_id_active (serial_reader (map Line pre) [header_row]) = Some ''1''"
    "acknowledgments (serial_reader (map Line pre) [header_row]) = []"
    using same_id_run [OF h, of "[header_row]"] n by (simp_all add: pre_def)
  have d: "tid_of (sample_line ''2'') \<noteq> ''1''" by (simp add: sample_line_tid2)
  show ?thesis
    using id_change_flushes_short_trial [OF sample_line_data2 before(3) d]
    unfolding pre_def [symmetric] before by (simp add: sample_line_tid2)
qed

text \<open>
  C3. When the input ends, by an exception of the connection or because the reader is
  stopped, the rows of the last trial beyond its complete blocks of 75 (the data rows that
  arrived after the last change of the trial id, modulo 75: fewer than 75, and what the
  buffer holds at that moment) are not in the file. For every run the file is the header
  and the accepted rows without those last ones, the acknowledgments printed count the
  written rows only, and nothing writes the others afterwards.
\<close>

theorem unflushed_rows_never_persisted:
  "main_store ser =
     header_row # take (length (accepted_rows ser) - unflushed ser) (accepted_rows ser) \<and>
   current_rows (serial_reader ser [header_row]) =
     drop (length (accepted_rows ser) - unflushed ser) (accepted_rows ser) \<and>
   unflushed ser \<le> length (accepted_rows ser) \<and>
   unflushed ser < ROWS_PER_TRIAL \<and>
   length (main_store ser) + unflushed ser = 1 + length (accepted_rows ser) \<and>
   sum_list (map saved_rows (printed (serial_reader ser [header_row]))) + unflushed ser =
     length (accepted_rows ser)"
proof -
  define s where "s = serial_reader ser [header_row]"
  define rows where "rows = accepted_rows ser"
  obtain flushed where f: "written s = header_row # flushed" "flushed @ current_rows s = rows"
    using store_split [of ser] unfolding s_def rows_def by blast
  have k: "length (current_rows s) = unflushed ser"
    unfolding s_def by (rule buffer_is_unflushed)
  have le: "unflushed ser \<le> length rows"
    using f(2) k by (metis le_add2 length_append)
  have n: "length rows - unflushed ser = length flushed"
    using f(2) k by (metis add_diff_cancel_right' length_append)
  have 1: "written s = header_row # take (length rows - unflushed ser) rows"
    unfolding n f(1) using f(2) by auto
  have 2: "current_rows s = drop (length rows - unflushed ser) rows"
    unfolding n using f(2) by auto
  have 3: "length (written s) + unflushed ser = 1 + length rows"
    unfolding f(1) using f(2) k by auto
  have short: "unflushed ser < ROWS_PER_TRIAL"
    by (simp add: unflushed_def ROWS_PER_TRIAL_def)
  have 4: "sum_list (map saved_rows (printed s)) + unflushed ser = length rows"
    unfolding s_def rows_def by (rule acknowledged_total)
  show ?thesis
    using 1 2 3 4 le short
    unfolding main_store_def s_def [symmetric] rows_def [symmetric] by blast
qed

text \<open>
  Scenario D: 30 rows with one trial id, then the connection fails; the file holds the
  header only. And 40 rows of trial 1, then 30 rows of trial 2, then the reader is stopped:
  the file holds the header and the 40 rows of trial 1.
\<close>

theorem unflushed_rows_never_persisted_witness:
  "main_store (map Line (replicate 30 (sample_line ''1'')) @ [Raised]) = [header_row] \<and>
   current_rows (serial_reader (map Line (replicate 30 (sample_line ''1'')) @ [Raised]) [header_row]) =
     replicate 30 (row_of (sample_line ''1'')) \<and>
   main_store (map Line (replicate 40 (sample_line ''1'') @ replicate 30 (sample_line ''2''))) =
     header_row # replicate 40 (row_of (sample_line ''1''))"
proof -
  define d where "d = map Line (replicate 30 (sample_line ''1'')) @ [Raised]"
  define e where "e = map Line (replicate 40 (sample_line ''1'') @ replicate 30 (sample_line ''2'')) @ []"
  have h1: "\<forall>l\<in>set (replicate 30 (sample_line ''1'')). data_line l"
    by (simp add: sample_line_data)
  have h2: "\<forall>l\<in>set (replicate 40 (sample_line ''1'') @ replicate 30 (sample_line ''2'')). data_line l"
    by (auto simp: sample_line_data sample_line_data2)
  have acc_d: "accepted_rows d = replicate 30 (row_of (sample_line ''1''))"
    unfolding d_def accepted_rows_data [OF h1] by simp
  have ids_d: "trial_ids d = [] @ replicate 30 ''1''"
    unfolding d_def trial_ids_data [OF h1] by (simp add: sample_line_tid)
  have un_d: "unflushed d = 30"
    unfolding unflushed_def last_trial_rows_def ids_d
    by (subst trailing_run_last_run) (simp_all add: ROWS_PER_TRIAL_def)
  have acc_e: "accepted_rows e =
      replicate 40 (row_of (sample_line ''1'')) @ replicate 30 (row_of (sample_line ''2''))"
    unfolding e_def accepted_rows_data [OF h2] by simp
  have ids_e: "trial_ids e = replicate 40 ''1'' @ replicate 30 ''2''"
    unfolding e_def trial_ids_data [OF h2] by (simp add: sample_line_tid sample_line_tid2)
  have un_e: "unflushed e = 30"
    unfolding unflushed_def last_trial_rows_def ids_e
    by (subst trailing_run_last_run) (simp_all add: ROWS_PER_TRIAL_def)
  have 1: "main_store d = [header_row] \<and>
           current_rows (serial_reader d [header_row]) = replicate 30 (row_of (sample_line ''1''))"
    using unflushed_rows_never_persisted [of d] unfolding acc_d un_d by simp
  have 2: "main_store e = header_row # replicate 40 (row_of (sample_line ''1''))"
    using unflushed_rows_never_persisted [of e] unfolding acc_e un_e by simp
  show ?thesis using 1 2 unfolding d_def e_def by simp
qed

text \<open>
  C4. A decoded line that is empty, starts with \<open>#\<close>, starts with \<open>t_s,\<close> or does not
  hold 12 commas adds no row and leaves the buffer, the active trial id, the written rows and
  the acknowledgments as they were.
\<close>

theorem ignored_lines_leave_segmenter_unchanged:
  assumes "strip raw = [] \<or> startswith (strip raw) ''#'' \<or> startswith (strip raw) ''t_s,'' \<or>
           count_char (strip raw) CHR '','' \<noteq> 12"
  shows "accepted_rows [Line raw] = [] \<and>
         current_rows (on_line raw s) = current_rows s \<and>
         trial_id_active (on_line raw s) = trial_id_active s \<and>
         written (on_line raw s) = written s \<and>
         acknowledgments (on_line raw s) = acknowledgments s"
proof -
  have "\<not> data_line raw"
    using assms by (auto simp: data_line_def Let_def)
  then show ?thesis
    using on_line_ignored [of raw s] by simp
qed

text \<open>Scenario C: the header line after 10 data rows; the 10 rows stay buffered.\<close>

theorem ignored_lines_leave_segmenter_unchanged_witness:
  "current_rows (serial_reader (map Line (replicate 10 (sample_line ''1'') @ [HEADER])) [header_row]) =
     replicate 10 (row_of (sample_line ''1'')) \<and>
   trial_id_active (serial_reader (map Line (replicate 10 (sample_line ''1'') @ [HEADER])) [header_row]) =
     Some ''1'' \<and>
   written (serial_reader (map Line (replicate 10 (sample_line ''1'') @ [HEADER])) [header_row]) =
     [header_row] \<and>
   acknowledgments (serial_reader (map Line (replicate 10 (sample_line ''1'') @ [HEADER])) [header_row]) = []"
proof -
  define pre where "pre = replicate 10 (sample_line ''1'')"
  have h: "\<forall>l\<in>set pre. data_line l \<and> tid_of l = ''1''"
    by (simp add: pre_def sample_line_data sample_line_tid)
  have n: "length pre = 10" "pre \<noteq> []" by (simp_all add: pre_def)
  have before: "written (serial_reader (map Line pre) [header_row]) = [header_row]"
    "current_rows (serial_reader (map Line pre) [header_row]) = replicate 10 (row_of (sample_line ''1''))"
    "trial_id_active (serial_reader (map Line pre) [header_row]) = Some ''1''"
    "acknowledgments (serial_reader (map Line pre) [header_row]) = []"
    using same_id_run [OF h, of "[header_row]"] n by (simp_all add: pre_def)
  have c: "strip HEADER = [] \<or> startswith (strip HEADER) ''#'' \<or> startswith (strip HEADER) ''t_s,'' \<or>
           count_char (strip HEADER) CHR '','' \<noteq> 12"
    using header_line_ignored by simp
  show ?thesis
    using ignored_lines_leave_segmenter_unchanged [OF c, of "serial_reader (map Line pre) [header_row]"]
    unfolding pre_def [symmetric] serial_reader_snoc before by simp
qed

text \<open>
  C9. Whatever lines came before, when the buffer is empty and a data row arrives whose
  trial id differs from the active one, the reader prints one acknowledgment for the
  previous id with zero rows, writes nothing, and goes on under the new id with that row
  alone in the buffer.
\<close>

theorem id_change_on_empty_buffer:
  assumes "data_line l"
    and "trial_id_active (serial_reader (map Line pre) w) = Some a"
    and "tid_of l \<noteq> a"
    and "current_rows (serial_reader (map Line pre) w) = []"
  shows "acknowledgments (serial_reader (map Line (pre @ [l])) w) =
           acknowledgments (serial_reader (map Line pre) w) @ [Saved a 0] \<and>
         written (serial_reader (map Line (pre @ [l])) w) =
           written (serial_reader (map Line pre) w) \<and>
         current_rows (serial_reader (map Line (pre @ [l])) w) = [row_of l] \<and>
         trial_id_active (serial_reader (map Line (pre @ [l])) w) = Some (tid_of l)"
proof -
  define s where "s = serial_reader (map Line pre) w"
  have step: "serial_reader (map Line (pre @ [l])) w =
      s\<lparr>printed := printed s @ [Echo (strip l), Saved a (length (current_rows s))],
        written := written s @ current_rows s,
        current_rows := [row_of l],
        trial_id_active := Some (tid_of l)\<rparr>"
    unfolding serial_reader_snoc s_def [symmetric]
    using assms by (intro on_line_change) (simp_all add: s_def)
  have empty: "current_rows s = []" using assms(4) by (simp add: s_def)
  show ?thesis
    unfolding s_def [symmetric] step using empty by (simp add: acknowledgments_def)
qed

text \<open>
  The state is reached: 75 rows with trial id 1 fill and flush a trial, and a row with trial
  id 2 then meets the empty buffer.
\<close>

theorem id_change_on_empty_buffer_witness:
  "acknowledgments (serial_reader (map Line (replicate 75 (sample_line ''1'') @ [sample_line ''2''])) [header_row]) =
     [Saved ''1'' 75, Saved ''1'' 0] \<and>
   written (serial_reader (map Line (replicate 75 (sample_line ''1'') @ [sample_line ''2''])) [header_row]) =
     header_row # replicate 75 (row_of (sample_line ''1'')) \<and>
   current_rows (serial_reader (map Line (replicate 75 (sample_line ''1'') @ [sample_line ''2''])) [header_row]) =
     [row_of (sample_line ''2'')] \<and>
   trial_id_active (serial_reader (map Line (replicate 75 (sample_line ''1'') @ [sample_line ''2''])) [header_row]) =
     Some ''2''"
proof -
  define pre where "pre = replicate 75 (sample_line ''1'')"
  have h: "\<forall>l\<in>set pre. data_line l \<and> tid_of l = ''1''"
    by (simp add: pre_def sample_line_data sample_line_tid)
  have n: "length pre = 75" "pre \<noteq> []" by (simp_all add: pre_def)
  have before: "written (serial_reader (map Line pre) [header_row]) =
      header_row # replicate 75 (row_of (sample_line ''1''))"
    "current_rows (serial_reader (map Line pre) [header_row]) = []"
    "trial_id_active (serial_reader (map Line pre) [header_row]) = Some ''1''"
    "acknowledgments (serial_reader (map Line pre) [header_row]) = [Saved ''1'' 75]"
    using same_id_run [OF h, of "[header_row]"] n by (simp_all add: pre_def)
  have d: "tid_of (sample_line ''2'') \<noteq> ''1''" by (simp add: sample_line_tid2)
  show ?thesis
    using id_change_on_empty_buffer [OF sample_line_data2 before(3) d before(2)]
    unfolding pre_def [symmetric] before by (simp add: sample_line_tid2)
qed

text \<open>
  C10. After any run of the reader loop, from the start and over any readings, the buffer
  holds fewer than 75 rows.
\<close>

theorem buffer_always_below_quota:
  "length (current_rows (serial_reader ser w)) < ROWS_PER_TRIAL"
  unfolding ROWS_PER_TRIAL_def by (rule serial_reader_short)

text \<open>
  C5. For every run, the file holds the header row first and only there, then accepted rows
  in arrival order (a prefix of them), as many as the acknowledgments report; the text
  written for these rows reads back as the same rows in the same order, and so does the text
  of the rows of any trial.
\<close>

theorem store_header_once_rows_in_order_read_back:
  "(\<exists>n\<le>length (accepted_rows ser). main_store ser = header_row # take n (accepted_rows ser)) \<and>
   count_list (main_store ser) header_row = 1 \<and>
   length (main_store ser) =
     1 + sum_list (map saved_rows (printed (serial_reader ser [header_row]))) \<and>
   csv_reader (file_text (main_store ser)) = Some (main_store ser) \<and>
   csv_reader (file_text (map row_of trial)) = Some (map row_of trial)"
proof -
  obtain flushed where f: "written (serial_reader ser [header_row]) = header_row # flushed"
    "flushed @ current_rows (serial_reader ser [header_row]) = accepted_rows ser"
    using store_split [of ser] by blast
  have t: "flushed = take (length flushed) (accepted_rows ser)"
    using f(2) by (metis append_eq_conv_conj)
  have n: "length flushed \<le> length (accepted_rows ser)"
    using f(2) by (metis le_add1 length_append)
  have 1: "\<exists>n\<le>length (accepted_rows ser). main_store ser = header_row # take n (accepted_rows ser)"
    using t n f(1) unfolding main_store_def by metis
  have sub: "set flushed \<subseteq> set (accepted_rows ser)"
    using f(2) by (metis Un_upper1 set_append)
  have "header_row \<notin> set flushed"
    using header_not_accepted [of ser] sub by blast
  then have 2: "count_list (main_store ser) header_row = 1"
    unfolding main_store_def f(1) by (simp add: count_list_0_iff)
  have 3: "length (main_store ser) =
      1 + sum_list (map saved_rows (printed (serial_reader ser [header_row])))"
    using reader_loop_acknowledged
      [of "\<lparr>current_rows = [], trial_id_active = None, written = [header_row], printed = []\<rparr>" ser]
    by (simp add: main_store_def serial_reader_def)
  have "header_row \<noteq> []" by (simp add: header_row_def split_on_not_Nil)
  then have "\<forall>r\<in>set (main_store ser). r \<noteq> []"
    unfolding main_store_def f(1) using sub accepted_rows_not_Nil [of ser] by auto
  then have 4: "csv_reader (file_text (main_store ser)) = Some (main_store ser)"
    by (rule file_read_back)
  have 5: "csv_reader (file_text (map row_of trial)) = Some (map row_of trial)"
    by (rule file_read_back) (simp add: row_of_not_Nil)
  show ?thesis using 1 2 3 4 5 by blast
qed

text \<open>A run of 75 rows with trial id 1: the file is the header and the 75 rows, and reads back so.\<close>

theorem store_header_once_rows_in_order_read_back_witness:
  "main_store (map Line (replicate 75 (sample_line ''1''))) =
     header_row # replicate 75 (row_of (sample_line ''1'')) \<and>
   count_list (header_row # replicate 75 (row_of (sample_line ''1''))) header_row = 1 \<and>
   csv_reader (file_text (header_row # replicate 75 (row_of (sample_line ''1'')))) =
     Some (header_row # replicate 75 (row_of (sample_line ''1'')))"
proof -
  define ls where "ls = replicate 75 (sample_line ''1'')"
  have h: "\<forall>l\<in>set ls. data_line l \<and> tid_of l = ''1''"
    by (simp add: ls_def sample_line_data sample_line_tid)
  have n: "length ls = 75" by (simp add: ls_def)
  have store: "main_store (map Line ls) = header_row # replicate 75 (row_of (sample_line ''1''))"
    unfolding main_store_def using same_id_run(1) [OF h, of "[header_row]"] n
    by (simp add: ls_def)
  show ?thesis
    using store_header_once_rows_in_order_read_back [of "map Line ls" "[]"]
    unfolding store ls_def [symmetric] by blast
qed

section \<open>Properties of the calibration\<close>

lemma digits_float_samples:
  "digits_float ''0'' = Some 0" "digits_float ''1'' = Some 1" "digits_float ''2'' = Some 2"
  "digits_float ''3'' = Some 3" "digits_float ''4'' = Some 4" "digits_float ''5'' = Some 5"
  by (simp_all add: digits_float_def)

lemma parse_five: "parse_values digits_float ''1,2,3,4,5'' = Some [1, 2, 3, 4, 5]"
  by (simp add: parse_values_def digits_float_samples)

lemma parse_six: "parse_values digits_float ''0,1,2,3,4,5'' = Some [0, 1, 2, 3, 4, 5]"
  by (simp add: parse_values_def digits_float_samples)

lemma strip_five: "strip ''1,2,3,4,5'' = ''1,2,3,4,5''"
  by (simp add: strip_def isspace_def)

lemma strip_six: "strip ''0,1,2,3,4,5'' = ''0,1,2,3,4,5''"
  by (simp add: strip_def isspace_def)

lemma collect_empty:
  "collect_loop pf ser [] = [] \<Longrightarrow> collect_calibration_data pf ser = Inl NoSensorData"
  by (simp add: collect_calibration_data_def)

lemma collect_Inr:
  "collect_calibration_data pf ser = Inr d \<Longrightarrow> collect_loop pf ser [] = d \<and> d \<noteq> []"
  by (auto simp: collect_calibration_data_def Let_def split: if_splits)

lemma calibrator_collect_empty:
  "calibrator_samples pf ser = [] \<Longrightarrow>
   calibrator_collect_calibration_data np pf ser = Inl NoSensorData"
  by (simp add: calibrator_collect_calibration_data_def)

lemma calibrator_collect_Inr:
  "calibrator_collect_calibration_data np pf ser = Inr d \<Longrightarrow> calibrator_samples pf ser \<noteq> []"
  by (auto simp: calibrator_collect_calibration_data_def split: list.splits)

lemma calibrator_collect_cases:
  "calibrator_collect_calibration_data np pf ser = Inl NoSensorData \<or>
   (\<exists>d. calibrator_collect_calibration_data np pf ser = Inr d)"
  by (auto simp: calibrator_collect_calibration_data_def split: list.splits)

lemma strip_comment: "strip ''# boot'' = ''# boot''"
  by (simp add: strip_def isspace_def)

lemma strip_Nil: "strip [] = []"
  by (simp add: strip_def)

lemma collect_line_comment: "collect_line pf ''# boot'' cd = cd"
  by (simp add: collect_line_def strip_comment startswith_def)

lemma collect_line_silence: "collect_line pf [] cd = cd"
  by (simp add: collect_line_def strip_Nil)

lemma silent_rest_capture: "collect_loop pf [Line ''# boot'', Line []] [] = []"
  by (simp add: collect_line_comment collect_line_silence)

lemma digits_float_comment: "parse_values digits_float ''# boot'' = None"
  by (simp add: parse_values_def digits_float_def)

lemma read_comment: "read_sensor_data digits_float (Line ''# boot'') = None"
  by (simp add: read_sensor_data_def strip_comment digits_float_comment)

lemma read_silence: "read_sensor_data pf (Line []) = None"
  by (simp add: read_sensor_data_def strip_Nil)

lemma silent_rest_calibrator: "calibrator_samples digits_float [Line ''# boot'', Line []] = []"
  by (simp add: calibrator_samples_def List.map_filter_def read_comment read_silence)

section \<open>The claims about the calibration\<close>

text \<open>
  C6. The collected samples are not always 5 values wide. A line that is not empty, is no
  comment and parses into exactly 5 numbers passes the length test and is stored without
  its first value: the sample has 4 values.
\<close>

theorem five_value_line_gives_four_value_sample:
  assumes "strip raw \<noteq> []" and "\<not> startswith (strip raw) ''#''"
    and "parse_values pf (strip raw) = Some values" and "length values = 5"
  shows "collect_line pf raw calibration_data = calibration_data @ [tl values] \<and>
         length (tl values) = 4 \<and>
         (\<exists>sample. collect_calibration_data pf [Line raw] = Inr [sample] \<and> length sample \<noteq> 5)"
proof -
  have d: "take 5 (drop 1 values) = tl values"
    using assms(4) by (simp add: drop_Suc)
  have step: "collect_line pf raw cd = cd @ [tl values]" for cd
    using assms d by (simp add: collect_line_def Let_def)
  have "collect_calibration_data pf [Line raw] = Inr [tl values]"
    by (simp add: collect_calibration_data_def step)
  then show ?thesis using step assms(4) by simp
qed

text \<open>The line \<^verbatim>\<open>1,2,3,4,5\<close> is accepted and gives the sample \<open>[2, 3, 4, 5]\<close>.\<close>

theorem five_value_line_gives_four_value_sample_witness:
  "collect_calibration_data digits_float [Line ''1,2,3,4,5''] = Inr [[2, 3, 4, 5]]"
proof -
  have s: "strip ''1,2,3,4,5'' = ''1,2,3,4,5''" by (rule strip_five)
  have h1: "strip ''1,2,3,4,5'' \<noteq> []" unfolding s by simp
  have h2: "\<not> startswith (strip ''1,2,3,4,5'') ''#''" unfolding s by (simp add: startswith_def)
  have h3: "parse_values digits_float (strip ''1,2,3,4,5'') = Some [1, 2, 3, 4, 5]"
    unfolding s by (rule parse_five)
  have h4: "length [1, 2, 3, 4, 5 :: real] = 5" by simp
  show ?thesis
    using five_value_line_gives_four_value_sample [OF h1 h2 h3 h4, of "[]"]
    by (simp add: collect_calibration_data_def)
qed

text \<open>
  C7. The reduction does not return for every non-empty collected sequence. From a line of
  6 or more numbers and a line of exactly 5 numbers the collection holds a sample of 5 values
  and a sample of 4 values; on rows of different lengths the reduction raises, whatever
  NumPy computes on arrays, and so does the whole calibration. The other tool collects two
  samples of 5 values from the same lines.
\<close>

theorem ragged_samples_make_reduction_raise:
  assumes "strip a \<noteq> []" and "\<not> startswith (strip a) ''#''"
    and "parse_values pf (strip a) = Some va" and "6 \<le> length va"
    and "strip b \<noteq> []" and "\<not> startswith (strip b) ''#''"
    and "parse_values pf (strip b) = Some vb" and "length vb = 5"
  shows "collect_calibration_data pf [Line a, Line b] = Inr [take 5 (tl va), tl vb] \<and>
         length (take 5 (tl va)) = 5 \<and> length (tl vb) = 4 \<and>
         calculate_calibration_values np now [take 5 (tl va), tl vb] = Inl NumpyValueError \<and>
         run_full_calibration np pf user True [Line a, Line b] flex t1 t2 t3 =
           Inl NumpyValueError \<and>
         calibrator_samples pf [Line a, Line b] = [take 5 va, vb] \<and>
         length (take 5 va) = 5"
proof -
  have la: "collect_line pf a cd = cd @ [take 5 (tl va)]" for cd
    using assms(1-4) by (simp add: collect_line_def Let_def drop_Suc)
  have lb: "collect_line pf b cd = cd @ [tl vb]" for cd
    using assms(5-8) by (simp add: collect_line_def Let_def drop_Suc)
  have collected: "collect_calibration_data pf [Line a, Line b] = Inr [take 5 (tl va), tl vb]"
    by (simp add: collect_calibration_data_def la lb)
  have len: "length (take 5 (tl va)) = 5" "length (tl vb) = 4" "length (take 5 va) = 5"
    using assms(4) assms(8) by simp_all
  have raised: "calculate_calibration_values np t [take 5 (tl va), tl vb] = Inl NumpyValueError"
    for t
    using len by simp
  have run: "run_full_calibration np pf user True [Line a, Line b] flex t1 t2 t3 =
      Inl NumpyValueError"
    unfolding run_full_calibration_def collected using raised [of t1] by simp
  have ra: "read_sensor_data pf (Line a) = Some (take 5 va)"
    using assms(1-4) by (simp add: read_sensor_data_def Let_def)
  have rb: "read_sensor_data pf (Line b) = Some vb"
    using assms(5-8) by (simp add: read_sensor_data_def Let_def)
  have other: "calibrator_samples pf [Line a, Line b] = [take 5 va, vb]"
    by (simp add: calibrator_samples_def List.map_filter_def ra rb)
  show ?thesis using collected len raised [of now] run other by blast
qed

text \<open>
  The lines \<^verbatim>\<open>0,1,2,3,4,5\<close> and \<^verbatim>\<open>1,2,3,4,5\<close>: the samples are \<open>[1, 2, 3, 4, 5]\<close> and
  \<open>[2, 3, 4, 5]\<close>, and the reduction raises.
\<close>

theorem ragged_samples_make_reduction_raise_witness:
  "collect_calibration_data digits_float [Line ''0,1,2,3,4,5'', Line ''1,2,3,4,5''] =
     Inr [[1, 2, 3, 4, 5], [2, 3, 4, 5]] \<and>
   (\<forall>np now. calculate_calibration_values np now [[1, 2, 3, 4, 5], [2, 3, 4, 5 :: real]] =
     Inl NumpyValueError) \<and>
   (\<forall>np. run_full_calibration np digits_float ''u'' True
     [Line ''0,1,2,3,4,5'', Line ''1,2,3,4,5''] [] 0 0 0 = Inl NumpyValueError) \<and>
   calibrator_samples digits_float [Line ''0,1,2,3,4,5'', Line ''1,2,3,4,5''] =
     [[0, 1, 2, 3, 4], [1, 2, 3, 4, 5]]"
proof -
  have a: "strip ''0,1,2,3,4,5'' \<noteq> []" "\<not> startswith (strip ''0,1,2,3,4,5'') ''#''"
    "parse_values digits_float (strip ''0,1,2,3,4,5'') = Some [0, 1, 2, 3, 4, 5]"
    "6 \<le> length [0, 1, 2, 3, 4, 5 :: real]"
    unfolding strip_six by (simp_all add: startswith_def parse_six)
  have b: "strip ''1,2,3,4,5'' \<noteq> []" "\<not> startswith (strip ''1,2,3,4,5'') ''#''"
    "parse_values digits_float (strip ''1,2,3,4,5'') = Some [1, 2, 3, 4, 5]"
    "length [1, 2, 3, 4, 5 :: real] = 5"
    unfolding strip_five by (simp_all add: startswith_def parse_five)
  note all = ragged_samples_make_reduction_raise [OF a b]
  have 1: "collect_calibration_data digits_float [Line ''0,1,2,3,4,5'', Line ''1,2,3,4,5''] =
      Inr [[1, 2, 3, 4, 5], [2, 3, 4, 5]]"
    using all by simp
  have 2: "calculate_calibration_values np now [[1, 2, 3, 4, 5], [2, 3, 4, 5 :: real]] =
      Inl NumpyValueError" for np now
    using all [of np now "''u''" "[]" 0 0 0] by simp
  have 3: "run_full_calibration np digits_float ''u'' True
      [Line ''0,1,2,3,4,5'', Line ''1,2,3,4,5''] [] 0 0 0 = Inl NumpyValueError" for np
    using all [of np 0 "''u''" "[]" 0 0 0] by simp
  have 4: "calibrator_samples digits_float [Line ''0,1,2,3,4,5'', Line ''1,2,3,4,5''] =
      [[0, 1, 2, 3, 4], [1, 2, 3, 4, 5]]"
    using all by simp
  show ?thesis using 1 2 3 4 by blast
qed

text \<open>
  C8. In both calibration tools, a phase that collects no sample makes the run fail with an
  error and no record (on a connected glove the error is the one for missing sensor data,
  always so when the rest phase is the empty one); a record is returned only if both phases
  collected at least one sample.
\<close>

theorem empty_phase_fails_calibration:
  "(collect_loop pf rest [] = [] \<or> collect_loop pf flex [] = [] \<longrightarrow>
      (\<exists>e. run_full_calibration np pf user ok rest flex t1 t2 t3 = Inl e)) \<and>
   (ok \<and> collect_loop pf rest [] = [] \<longrightarrow>
      run_full_calibration np pf user ok rest flex t1 t2 t3 = Inl NoSensorData) \<and>
   (run_full_calibration np pf user ok rest flex t1 t2 t3 = Inr record \<longrightarrow>
      ok \<and> collect_loop pf rest [] \<noteq> [] \<and> collect_loop pf flex [] \<noteq> []) \<and>
   (calibrator_samples pf rest = [] \<or> calibrator_samples pf flex = [] \<longrightarrow>
      (\<exists>e. calibrator_run_full_calibration np pf user ok rest flex t3 = Inl e)) \<and>
   (ok \<and> (calibrator_samples pf rest = [] \<or> calibrator_samples pf flex = []) \<longrightarrow>
      calibrator_run_full_calibration np pf user ok rest flex t3 = Inl NoSensorData) \<and>
   (calibrator_run_full_calibration np pf user ok rest flex t3 = Inr record \<longrightarrow>
      ok \<and> calibrator_samples pf rest \<noteq> [] \<and> calibrator_samples pf flex \<noteq> [])"
proof -
  have 3: "ok \<and> collect_loop pf rest [] \<noteq> [] \<and> collect_loop pf flex [] \<noteq> []"
    if "run_full_calibration np pf user ok rest flex t1 t2 t3 = Inr record"
    using that
    by (auto simp: run_full_calibration_def split: if_splits sum.splits dest: collect_Inr)
  have 1: "\<exists>e. run_full_calibration np pf user ok rest flex t1 t2 t3 = Inl e"
    if "collect_loop pf rest [] = [] \<or> collect_loop pf flex [] = []"
    using that
    by (auto simp: run_full_calibration_def collect_empty split: sum.splits dest: collect_Inr)
  have 2: "run_full_calibration np pf user ok rest flex t1 t2 t3 = Inl NoSensorData"
    if "ok \<and> collect_loop pf rest [] = []"
    using that by (simp add: run_full_calibration_def collect_empty)
  have 6: "ok \<and> calibrator_samples pf rest \<noteq> [] \<and> calibrator_samples pf flex \<noteq> []"
    if "calibrator_run_full_calibration np pf user ok rest flex t3 = Inr record"
    using that
    by (auto simp: calibrator_run_full_calibration_def split: if_splits sum.splits
        dest: calibrator_collect_Inr)
  have 5: "calibrator_run_full_calibration np pf user ok rest flex t3 = Inl NoSensorData"
    if "ok \<and> (calibrator_samples pf rest = [] \<or> calibrator_samples pf flex = [])"
    using that calibrator_collect_cases [of np pf rest]
    by (auto simp: calibrator_run_full_calibration_def calibrator_collect_empty)
  have 4: "\<exists>e. calibrator_run_full_calibration np pf user ok rest flex t3 = Inl e"
    if "calibrator_samples pf rest = [] \<or> calibrator_samples pf flex = []"
    using that 5 by (cases ok) (auto simp: calibrator_run_full_calibration_def)
  show ?thesis using 1 2 3 4 5 6 by blast
qed

text \<open>
  A rest phase that reads a comment and silence only: both tools fail for missing data,
  whatever NumPy computes.
\<close>

theorem empty_phase_fails_calibration_witness:
  "\<forall>np. run_full_calibration np digits_float ''u'' True [Line ''# boot'', Line []]
          [Line ''0,1,2,3,4,5''] 0 0 0 = Inl NoSensorData \<and>
        calibrator_run_full_calibration np digits_float ''u'' True [Line ''# boot'', Line []]
          [Line ''0,1,2,3,4,5''] 0 = Inl NoSensorData"
proof
  fix np :: "real numpy"
  note all = empty_phase_fails_calibration
    [where np = np and pf = digits_float and rest = "[Line ''# boot'', Line []]"
       and flex = "[Line ''0,1,2,3,4,5'']" and user = "''u''" and ok = True
       and ?t1.0 = 0 and ?t2.0 = 0 and ?t3.0 = 0]
  have a: "collect_loop digits_float [Line ''# boot'', Line []] [] = []"
    by (rule silent_rest_capture)
  have b: "calibrator_samples digits_float [Line ''# boot'', Line []] = []"
    by (rule silent_rest_calibrator)
  show "run_full_calibration np digits_float ''u'' True [Line ''# boot'', Line []]
          [Line ''0,1,2,3,4,5''] 0 0 0 = Inl NoSensorData \<and>
        calibrator_run_full_calibration np digits_float ''u'' True [Line ''# boot'', Line []]
          [Line ''0,1,2,3,4,5''] 0 = Inl NoSensorData"
    using all a b by blast
qed

end
